theory Spec2Isabelle
  imports Main "HOL-Library.Sublist"
begin

section \<open>Text and character classes\<close>

text \<open>
  The script reads a file with \<^verbatim>\<open>read_text()\<close> and works on the resulting Python
  string. A text is modelled as a \<^typ>\<open>string\<close>; a \<^typ>\<open>char\<close> stands for the code point
  of the same number (U+0000 to U+00FF). The two character classes of the pattern,
  \<^verbatim>\<open>\s\<close> and \<^verbatim>\<open>\w\<close>, are Python's Unicode classes restricted to that range;
  \<^verbatim>\<open>str.rstrip()\<close> strips the same set as \<^verbatim>\<open>\s\<close>.
\<close>

definition isspace :: "char \<Rightarrow> bool" where
  "isspace c = (c \<in> set [CHR 0x09, CHR 0x0A, CHR 0x0B, CHR 0x0C, CHR 0x0D,
                           CHR 0x1C, CHR 0x1D, CHR 0x1E, CHR 0x1F, CHR '' '',
                           CHR 0x85, CHR 0xA0])"

definition isword :: "char \<Rightarrow> bool" where
  "isword c =
     (let n = (of_char c :: nat) in
        (48 \<le> n \<and> n \<le> 57) \<or> (65 \<le> n \<and> n \<le> 90) \<or> n = 95 \<or> (97 \<le> n \<and> n \<le> 122) \<or>
        n = 170 \<or> n = 178 \<or> n = 179 \<or> n = 181 \<or> n = 185 \<or> n = 186 \<or>
        n = 188 \<or> n = 189 \<or> n = 190 \<or>
        (192 \<le> n \<and> n \<le> 214) \<or> (216 \<le> n \<and> n \<le> 246) \<or> (248 \<le> n \<and> n \<le> 255))"

definition rstrip :: "string \<Rightarrow> string" where
  "rstrip s = rev (dropWhile isspace (rev s))"

text \<open>Python's \<^verbatim>\<open>p in s\<close> on strings: \<open>p\<close> occurs in \<open>s\<close> as a contiguous substring.\<close>

fun contains :: "string \<Rightarrow> string \<Rightarrow> bool" where
  "contains p [] = (p = [])"
| "contains p (c # cs) = (prefix p (c # cs) \<or> contains p cs)"

section \<open>Backtracking regular expressions\<close>

text \<open>
  The fragment of Python's \<^verbatim>\<open>re\<close> syntax that the pattern uses. Matching is by
  backtracking: \<open>rmatch r s\<close> lists, in the order in which the engine tries them, the
  ways \<open>r\<close> can match a prefix of \<open>s\<close>, each as the matched prefix and the remaining
  text. Repetition is greedy (one more iteration is tried before stopping), an
  alternation tries its left branch first, and a negative lookahead consumes nothing.
\<close>

datatype regex =
    Lit string
  | NotChr char
  | Space
  | Word
  | Seq regex regex
  | Alt regex regex
  | Star regex
  | NegLook regex

fun star_iter :: "(string \<Rightarrow> (string \<times> string) list) \<Rightarrow> nat \<Rightarrow> string \<Rightarrow> (string \<times> string) list" where
  "star_iter f 0 s = [([], s)]"
| "star_iter f (Suc n) s =
     concat (map (\<lambda>(x, r). if x = [] then []
                              else map (\<lambda>(y, r'). (x @ y, r')) (star_iter f n r)) (f s))
     @ [([], s)]"

primrec rmatch :: "regex \<Rightarrow> string \<Rightarrow> (string \<times> string) list" where
  "rmatch (Lit w) s = (if prefix w s then [(w, drop (length w) s)] else [])"
| "rmatch (NotChr c) s = (case s of [] \<Rightarrow> [] | x # xs \<Rightarrow> if x \<noteq> c then [([x], xs)] else [])"
| "rmatch Space s = (case s of [] \<Rightarrow> [] | x # xs \<Rightarrow> if isspace x then [([x], xs)] else [])"
| "rmatch Word s = (case s of [] \<Rightarrow> [] | x # xs \<Rightarrow> if isword x then [([x], xs)] else [])"
| "rmatch (Seq a b) s =
     concat (map (\<lambda>(x, r). map (\<lambda>(y, r'). (x @ y, r')) (rmatch b r)) (rmatch a s))"
| "rmatch (Alt a b) s = rmatch a s @ rmatch b s"
| "rmatch (Star a) s = star_iter (rmatch a) (length s) s"
| "rmatch (NegLook a) s = (if rmatch a s = [] then [([], s)] else [])"

definition Plus :: "regex \<Rightarrow> regex" where
  "Plus a = Seq a (Star a)"

fun seqs :: "regex list \<Rightarrow> regex" where
  "seqs [] = Lit []"
| "seqs [r] = r"
| "seqs (r # rs) = Seq r (seqs rs)"

section \<open>The pattern of the script\<close>

definition NL :: char where
  "NL = CHR 0x0A"

text \<open>Group 1: \<^verbatim>\<open>((?:#\[[^d][^\]]*\]\s*|#\[d(?!erive\()[^\]]*\]\s*)*)\<close>\<close>

definition group1_re :: regex where
  "group1_re =
     Star (Alt (seqs [Lit ''#['', NotChr CHR ''d'', Star (NotChr CHR '']''), Lit '']'', Star Space])
               (seqs [Lit ''#[d'', NegLook (Lit ''erive(''), Star (NotChr CHR '']''), Lit '']'',
                      Star Space]))"

text \<open>Group 2: \<^verbatim>\<open>((?:#\[derive\([^)]+\)\]\s*)+)\<close>\<close>

definition group2_re :: regex where
  "group2_re = Plus (seqs [Lit ''#[derive('', Plus (NotChr CHR '')''), Lit '')]'', Star Space])"

text \<open>Group 3: \<^verbatim>\<open>((?:#\[[^\]]+\]\s*)*)\<close>\<close>

definition group3_re :: regex where
  "group3_re = Star (seqs [Lit ''#['', Plus (NotChr CHR '']''), Lit '']'', Star Space])"

text \<open>Group 4: \<^verbatim>\<open>((?:///[^\n]*\n\s*)*)\<close>\<close>

definition group4_re :: regex where
  "group4_re = Star (seqs [Lit ''///'', Star (NotChr NL), Lit [NL], Star Space])"

text \<open>Group 5: \<^verbatim>\<open>(pub (?:struct|enum) (\w+))\<close>, split before its inner group 6.\<close>

definition keyword_re :: regex where
  "keyword_re = seqs [Lit ''pub '', Alt (Lit ''struct'') (Lit ''enum''), Lit '' '']"

definition name_re :: regex where
  "name_re = Plus Word"

text \<open>
  A match object: the six groups and \<^verbatim>\<open>content[match.end():]\<close>. The five outer
  groups are the factors of the pattern, so \<^verbatim>\<open>match.group(0)\<close> is their concatenation.
\<close>

record re_match =
  group1 :: string
  group2 :: string
  group3 :: string
  group4 :: string
  group5 :: string
  group6 :: string
  after_end :: string

definition group0 :: "re_match \<Rightarrow> string" where
  "group0 m = group1 m @ group2 m @ group3 m @ group4 m @ group5 m"

definition match_all :: "string \<Rightarrow> re_match list" where
  "match_all s =
     List.bind (rmatch group1_re s) (\<lambda>(g1, r1).
     List.bind (rmatch group2_re r1) (\<lambda>(g2, r2).
     List.bind (rmatch group3_re r2) (\<lambda>(g3, r3).
     List.bind (rmatch group4_re r3) (\<lambda>(g4, r4).
     List.bind (rmatch keyword_re r4) (\<lambda>(kw, r5).
     List.bind (rmatch name_re r5) (\<lambda>(nm, r6).
       [\<lparr>group1 = g1, group2 = g2, group3 = g3, group4 = g4,
         group5 = kw @ nm, group6 = nm, after_end = r6\<rparr>]))))))"

text \<open>\<^verbatim>\<open>pattern.match\<close> at the start of \<open>s\<close>: the first success of the backtracking search.\<close>

definition pattern_match :: "string \<Rightarrow> re_match option" where
  "pattern_match s = (case match_all s of [] \<Rightarrow> None | m # _ \<Rightarrow> Some m)"

lemma star_iter_sound:
  assumes "\<And>t x r. (x, r) \<in> set (f t) \<Longrightarrow> t = x @ r"
  shows "(x, r) \<in> set (star_iter f n s) \<Longrightarrow> s = x @ r"
proof (induction n arbitrary: s x r)
  case 0
  then show ?case by simp
next
  case (Suc n)
  then show ?case using assms by (fastforce split: if_splits)
qed

lemma rmatch_sound: "(x, r) \<in> set (rmatch a s) \<Longrightarrow> s = x @ r"
proof (induction a arbitrary: s x r)
  case (Lit w)
  then show ?case by (auto simp: prefix_def split: if_splits)
next
  case (NotChr c)
  then show ?case by (cases s) (auto split: if_splits)
next
  case Space
  then show ?case by (cases s) (auto split: if_splits)
next
  case Word
  then show ?case by (cases s) (auto split: if_splits)
next
  case (Seq a b)
  from Seq.prems obtain x1 r1 x2 where
    "(x1, r1) \<in> set (rmatch a s)" "(x2, r) \<in> set (rmatch b r1)" "x = x1 @ x2"
    by auto
  with Seq.IH show ?case by fastforce
next
  case (Alt a b)
  then show ?case by auto
next
  case (Star a)
  have "\<And>t x r. (x, r) \<in> set (rmatch a t) \<Longrightarrow> t = x @ r"
    by (rule Star.IH)
  from star_iter_sound [of "rmatch a", OF this] Star.prems show ?case
    by simp
next
  case (NegLook a)
  then show ?case by (auto split: if_splits)
qed

text \<open>
  The iteration of a repetition is bounded by the length of the text, which each
  iteration shortens. The bound is never reached: any larger one gives the same list,
  and the repetition satisfies the recursion equation of a greedy loop.
\<close>

lemma star_iter_fuel:
  assumes snd: "\<And>t x r. (x, r) \<in> set (f t) \<Longrightarrow> t = x @ r"
  shows "length s \<le> n \<Longrightarrow> length s \<le> k \<Longrightarrow> star_iter f n s = star_iter f k s"
proof (induction n arbitrary: s k)
  case 0
  then have s: "s = []" by simp
  have "\<And>p. p \<in> set (f []) \<Longrightarrow> fst p = []"
    using snd by (metis append_is_Nil_conv prod.collapse)
  then have "concat (map (\<lambda>(x, r). if x = [] then []
                 else map (\<lambda>(y, r'). (x @ y, r')) (star_iter f j r)) (f [])) = []" for j
    by (auto split: prod.splits)
  then show ?case using s by (cases k) simp_all
next
  case (Suc n)
  show ?case
  proof (cases k)
    case 0
    with Suc.prems have s: "s = []" by simp
    have "\<And>p. p \<in> set (f []) \<Longrightarrow> fst p = []"
      using snd by (metis append_is_Nil_conv prod.collapse)
    then have "concat (map (\<lambda>(x, r). if x = [] then []
                 else map (\<lambda>(y, r'). (x @ y, r')) (star_iter f n r)) (f [])) = []"
      by (auto split: prod.splits)
    then show ?thesis using s 0 by simp
  next
    case (Suc k')
    have "(\<lambda>(x, r). if x = [] then [] else map (\<lambda>(y, r'). (x @ y, r')) (star_iter f n r)) p =
          (\<lambda>(x, r). if x = [] then [] else map (\<lambda>(y, r'). (x @ y, r')) (star_iter f k' r)) p"
      if "p \<in> set (f s)" for p
    proof (cases p)
      case (Pair x r)
      show ?thesis
      proof (cases "x = []")
        case True
        with Pair show ?thesis by simp
      next
        case False
        from that Pair have "s = x @ r" using snd by blast
        with False have "length r < length s" by (cases x) simp_all
        with Suc.prems Suc have "length r \<le> n" "length r \<le> k'" by simp_all
        then have "star_iter f n r = star_iter f k' r" by (rule Suc.IH)
        with Pair show ?thesis by simp
      qed
    qed
    then have "map (\<lambda>(x, r). if x = [] then [] else map (\<lambda>(y, r'). (x @ y, r')) (star_iter f n r)) (f s) =
          map (\<lambda>(x, r). if x = [] then [] else map (\<lambda>(y, r'). (x @ y, r')) (star_iter f k' r)) (f s)"
      by (rule map_cong [OF refl])
    then show ?thesis unfolding Suc star_iter.simps by (simp only:)
  qed
qed

lemma rmatch_Star_fuel:
  "length s \<le> n \<Longrightarrow> star_iter (rmatch a) n s = rmatch (Star a) s"
  using star_iter_fuel [of "rmatch a" s n "length s"] rmatch_sound by simp

lemma rmatch_Star_unfold:
  "rmatch (Star a) s =
     concat (map (\<lambda>(x, r). if x = [] then []
                              else map (\<lambda>(y, r'). (x @ y, r')) (rmatch (Star a) r)) (rmatch a s))
     @ [([], s)]"
proof -
  have "(\<lambda>(x, r). if x = [] then [] else map (\<lambda>(y, r'). (x @ y, r')) (star_iter (rmatch a) (length s) r)) p =
        (\<lambda>(x, r). if x = [] then [] else map (\<lambda>(y, r'). (x @ y, r')) (rmatch (Star a) r)) p"
    if "p \<in> set (rmatch a s)" for p
  proof (cases p)
    case (Pair x r)
    with that have "s = x @ r" using rmatch_sound by blast
    then have "length r \<le> length s" by simp
    then have "star_iter (rmatch a) (length s) r = rmatch (Star a) r" by (rule rmatch_Star_fuel)
    with Pair show ?thesis by simp
  qed
  then have eq: "map (\<lambda>(x, r). if x = [] then [] else map (\<lambda>(y, r'). (x @ y, r')) (star_iter (rmatch a) (length s) r)) (rmatch a s) =
        map (\<lambda>(x, r). if x = [] then [] else map (\<lambda>(y, r'). (x @ y, r')) (rmatch (Star a) r)) (rmatch a s)"
    by (rule map_cong [OF refl])
  have "rmatch (Star a) s = star_iter (rmatch a) (Suc (length s)) s"
    using rmatch_Star_fuel [of s "Suc (length s)" a] by simp
  then show ?thesis unfolding star_iter.simps by (simp only: eq)
qed

lemma rmatch_Lit_iff: "(x, r) \<in> set (rmatch (Lit w) s) \<longleftrightarrow> x = w \<and> s = w @ r"
  by (auto simp: prefix_def)

lemma rmatch_Seq_iff:
  "(x, r) \<in> set (rmatch (Seq a b) s) \<longleftrightarrow>
     (\<exists>x1 r1 x2. (x1, r1) \<in> set (rmatch a s) \<and> (x2, r) \<in> set (rmatch b r1) \<and> x = x1 @ x2)"
  by force

lemma rmatch_Alt_iff:
  "(x, r) \<in> set (rmatch (Alt a b) s) \<longleftrightarrow>
     (x, r) \<in> set (rmatch a s) \<or> (x, r) \<in> set (rmatch b s)"
  by simp

lemma match_all_parts:
  assumes "m \<in> set (match_all s)"
  shows "\<exists>r1 r2 r3 r4 r5 kw.
           (group1 m, r1) \<in> set (rmatch group1_re s) \<and>
           (group2 m, r2) \<in> set (rmatch group2_re r1) \<and>
           (group3 m, r3) \<in> set (rmatch group3_re r2) \<and>
           (group4 m, r4) \<in> set (rmatch group4_re r3) \<and>
           (kw, r5) \<in> set (rmatch keyword_re r4) \<and>
           (group6 m, after_end m) \<in> set (rmatch name_re r5) \<and>
           group5 m = kw @ group6 m"
  using assms unfolding match_all_def by (simp add: set_list_bind) fastforce

lemma match_all_text:
  assumes "m \<in> set (match_all s)"
  shows "s = group0 m @ after_end m"
proof -
  from match_all_parts [OF assms] obtain r1 r2 r3 r4 r5 kw where
    "(group1 m, r1) \<in> set (rmatch group1_re s)"
    "(group2 m, r2) \<in> set (rmatch group2_re r1)"
    "(group3 m, r3) \<in> set (rmatch group3_re r2)"
    "(group4 m, r4) \<in> set (rmatch group4_re r3)"
    "(kw, r5) \<in> set (rmatch keyword_re r4)"
    "(group6 m, after_end m) \<in> set (rmatch name_re r5)"
    "group5 m = kw @ group6 m"
    by blast
  then show ?thesis
    by (auto simp: group0_def dest!: rmatch_sound)
qed

lemma keyword_re_shape:
  assumes "(kw, r) \<in> set (rmatch keyword_re s)"
  shows "kw = ''pub struct '' \<or> kw = ''pub enum ''"
  using assms by (auto simp: keyword_re_def split: if_splits)

lemma pattern_match_Some:
  "pattern_match s = Some m \<Longrightarrow> m \<in> set (match_all s)"
  by (auto simp: pattern_match_def split: list.splits)

lemma pattern_match_text:
  "pattern_match s = Some m \<Longrightarrow> s = group0 m @ after_end m"
  by (rule match_all_text) (rule pattern_match_Some)

lemma pattern_match_shorter:
  assumes "pattern_match s = Some m"
  shows "length (after_end m) < length s"
proof -
  have m: "m \<in> set (match_all s)" using assms by (rule pattern_match_Some)
  from match_all_parts [OF m] obtain kw r4 r5 where
    "(kw, r5) \<in> set (rmatch keyword_re r4)" "group5 m = kw @ group6 m"
    by blast
  then have "group5 m \<noteq> []" using keyword_re_shape by fastforce
  then have "group0 m \<noteq> []" by (simp add: group0_def)
  with match_all_text [OF m] show ?thesis
    by (metis append_eq_conv_conj drop_eq_Nil2 linorder_not_le self_append_conv2 length_drop
        diff_less length_greater_0_conv append_Nil length_append add_diff_cancel_right' zero_less_diff)
qed

section \<open>The substitution pass\<close>

text \<open>
  \<^verbatim>\<open>re.sub(pattern, repl, content)\<close> walks the text from left to right. At each
  position it tries the pattern; on a match it emits the replacement and resumes
  after the match, otherwise it copies one character and moves on. The pattern has
  no anchor and no lookbehind, so a match at a position depends on the text from that
  position only. It requires the literal \<^verbatim>\<open>pub\<close>, so it never matches the empty
  string. \<open>sub_segments\<close> is the walk: the text cut into the characters copied and
  the matches found.
\<close>

datatype segment = Plain char | Cand re_match

function sub_segments :: "string \<Rightarrow> segment list" where
  "sub_segments s =
     (case pattern_match s of
        Some m \<Rightarrow> Cand m # sub_segments (after_end m)
      | None \<Rightarrow> (case s of [] \<Rightarrow> [] | c # cs \<Rightarrow> Plain c # sub_segments cs))"
  by pat_completeness auto
termination
  by (relation "measure length") (auto simp: pattern_match_shorter)

declare sub_segments.simps [simp del]

fun original :: "segment \<Rightarrow> string" where
  "original (Plain c) = [c]"
| "original (Cand m) = group0 m"

fun render :: "(re_match \<Rightarrow> string) \<Rightarrow> segment \<Rightarrow> string" where
  "render repl (Plain c) = [c]"
| "render repl (Cand m) = repl m"

definition re_sub :: "(re_match \<Rightarrow> string) \<Rightarrow> string \<Rightarrow> string" where
  "re_sub repl content = concat (map (render repl) (sub_segments content))"

section \<open>The replacement callback\<close>

definition marker :: string where
  "marker = ''utoipa::ToSchema''"

definition derive_line :: string where
  "derive_line = ''#[derive(utoipa::ToSchema)]''"

definition types_to_skip :: "string list" where
  "types_to_skip = [''CreateSpeechResponse'', ''AssistantStreamEvent'', ''ImageResponse'', ''Image'']"

definition problematic_types :: "string list" where
  "problematic_types =
     [''Bytes'', ''ApiError'', ''Arc<'', ''PathBuf'',
      ''InputSource'', ''WebSearchPreview'', ''AudioInput'',
      ''FileInput'', ''HostedToolType'', ''ToolDefinition'', ''ImageInput'',
      ''ResponseMetadata'']"

text \<open>
  The loop over \<^verbatim>\<open>rest_of_content\<close>, with its three variables as arguments; the
  \<^verbatim>\<open>break\<close> returns the content collected so far.
\<close>

fun scan_body :: "string \<Rightarrow> int \<Rightarrow> bool \<Rightarrow> string \<Rightarrow> string" where
  "scan_body [] brace_count in_struct struct_content = struct_content"
| "scan_body (c # cs) brace_count in_struct struct_content =
     (if c = CHR ''{'' then
        scan_body cs (brace_count + 1) True (struct_content @ [c])
      else if c = CHR ''}'' then
        (if brace_count - 1 = 0 \<and> in_struct then struct_content
         else scan_body cs (brace_count - 1) in_struct
                (if in_struct then struct_content @ [c] else struct_content))
      else scan_body cs brace_count in_struct
             (if in_struct then struct_content @ [c] else struct_content))"

definition extract_body :: "string \<Rightarrow> string" where
  "extract_body rest_of_content = scan_body rest_of_content 0 False []"

definition has_problematic_type :: "string \<Rightarrow> bool" where
  "has_problematic_type struct_content =
     list_ex (\<lambda>problematic_type. contains problematic_type struct_content) problematic_types"

definition annotated :: "re_match \<Rightarrow> string" where
  "annotated m =
     (if group3 m \<noteq> [] then
        group1 m @ rstrip (group2 m) @ [NL] @ derive_line @ [NL] @ group3 m @ group4 m @ group5 m
      else
        group1 m @ rstrip (group2 m) @ [NL] @ derive_line @ [NL] @ group4 m @ group5 m)"

definition add_separate_derive :: "re_match \<Rightarrow> string" where
  "add_separate_derive m =
     (if contains marker (rstrip (group2 m)) then group0 m
      else if group6 m \<in> set types_to_skip then group0 m
      else if has_problematic_type (extract_body (after_end m)) then group0 m
      else annotated m)"

text \<open>The body of the \<^verbatim>\<open>try\<close> block once the content is read (lines 24 to 96).\<close>

definition add_utoipa_to_content :: "string \<Rightarrow> string \<times> bool" where
  "add_utoipa_to_content content =
     (let modified = re_sub add_separate_derive content
      in (modified, modified \<noteq> content))"

section \<open>The body of a declaration\<close>

text \<open>
  The rule that the loop follows, stated on positions of the text that follows a
  match. The depth after a prefix of the text is the number of opening braces in it
  minus the number of closing ones, counted from the start of the text, so a closing
  brace counts also before any brace was opened. The body starts at the first opening
  brace. It stops before the first closing brace after that start at which the depth
  is back to zero, or at the end of the text when there is none: the loop tests the
  depth at a closing brace only.
\<close>

definition depth :: "string \<Rightarrow> int" where
  "depth xs = int (count_list xs CHR ''{'') - int (count_list xs CHR ''}'')"

definition opened_at :: "string \<Rightarrow> nat" where
  "opened_at xs = length (takeWhile (\<lambda>c. c \<noteq> CHR ''{'') xs)"

definition closes :: "string \<Rightarrow> nat \<Rightarrow> bool" where
  "closes xs j \<longleftrightarrow>
     j < length xs \<and> xs ! j = CHR ''}'' \<and> opened_at xs < j \<and> depth (take (Suc j) xs) = 0"

definition stop_at :: "string \<Rightarrow> nat" where
  "stop_at xs = (case find (closes xs) [0..<length xs] of None \<Rightarrow> length xs | Some j \<Rightarrow> j)"

definition body_rule :: "string \<Rightarrow> string" where
  "body_rule xs = take (stop_at xs - opened_at xs) (drop (opened_at xs) xs)"

text \<open>
  The algorithm in the words of the specification: go through the text character by
  character, count an opening brace up and a closing brace down, collect from the
  first opening brace on, and stop as soon as the counter is back to zero after a
  brace was opened. The counter is looked at after every character.
\<close>

fun claimed_scan :: "string \<Rightarrow> int \<Rightarrow> bool \<Rightarrow> string \<Rightarrow> string" where
  "claimed_scan [] d opened body = body"
| "claimed_scan (c # cs) d opened body =
     (let d' = (if c = CHR ''{'' then d + 1 else if c = CHR ''}'' then d - 1 else d);
          opened' = (opened \<or> c = CHR ''{'')
      in if d' = 0 \<and> opened' then body
         else claimed_scan cs d' opened' (if opened' then body @ [c] else body))"

definition claimed_body :: "string \<Rightarrow> string" where
  "claimed_body rest_of_content = claimed_scan rest_of_content 0 False []"

section \<open>Candidates that are annotated\<close>

text \<open>
  A candidate qualifies when none of the three checks of the callback returns the
  match unchanged. The whitespace that \<^verbatim>\<open>rstrip\<close> removes from the derive block is
  \<open>trailing_space\<close>.
\<close>

definition qualifies :: "re_match \<Rightarrow> bool" where
  "qualifies m \<longleftrightarrow>
     \<not> contains marker (rstrip (group2 m)) \<and>
     group6 m \<notin> set types_to_skip \<and>
     \<not> has_problematic_type (extract_body (after_end m))"

definition trailing_space :: "string \<Rightarrow> string" where
  "trailing_space s = rev (takeWhile isspace (rev s))"

section \<open>Files and the directory walk\<close>

text \<open>
  The file system and the console are part of the state. For each path, \<open>files\<close>
  holds what \<^verbatim>\<open>read_text()\<close> does: it returns the content or raises. An exception is
  kept with its message and with its place in Python's hierarchy: \<open>PyException\<close> is an
  instance of \<^verbatim>\<open>Exception\<close> (\<^verbatim>\<open>OSError\<close>, \<^verbatim>\<open>UnicodeDecodeError\<close>), which
  \<^verbatim>\<open>except Exception\<close> catches; \<open>PyBaseException\<close> is an instance of
  \<^verbatim>\<open>BaseException\<close> only (\<^verbatim>\<open>KeyboardInterrupt\<close>, \<^verbatim>\<open>SystemExit\<close>), which it does not
  catch. \<open>write_error\<close> tells whether \<^verbatim>\<open>write_text\<close> raises for a path, and
  \<open>print_error\<close> whether a \<^verbatim>\<open>print\<close> raises (a closed stream, a console that cannot
  encode the message). What the script prints is kept as a list of events, one for
  each \<^verbatim>\<open>print\<close> with the values it formats. A function that can raise returns
  \<open>Inl\<close> of the exception that leaves it. The transformation of the content is a
  function of the content and does not raise.
\<close>

datatype py_exception = PyException string | PyBaseException string

datatype event =
    Error_processing string py_exception
  | Directory_not_found
  | Processing_files
  | Processing string
  | Failed_to_process string
  | Modified string
  | No_changes string
  | Processing_subdirectory string
  | Summary nat nat nat

record state =
  files :: "string \<Rightarrow> py_exception + string"
  write_error :: "string \<Rightarrow> py_exception option"
  print_error :: "event \<Rightarrow> py_exception option"
  console :: "event list"
  files_modified :: nat
  total_files :: nat

definition print :: "event \<Rightarrow> state \<Rightarrow> py_exception + state" where
  "print e st =
     (case print_error st e of
        Some err \<Rightarrow> Inl err
      | None \<Rightarrow> Inr (st\<lparr>console := console st @ [e]\<rparr>))"

text \<open>
  Lines 20 to 100: the \<^verbatim>\<open>try\<close> block and its handler. The handler takes an
  \<^verbatim>\<open>Exception\<close> only, and its \<^verbatim>\<open>print\<close> (line 99) is not protected.
\<close>

definition add_utoipa_to_file ::
  "string \<Rightarrow> state \<Rightarrow> py_exception + ((string option \<times> bool) \<times> state)" where
  "add_utoipa_to_file file_path st =
     (case files st file_path of
        Inr content \<Rightarrow>
          (let (modified, changed) = add_utoipa_to_content content
           in Inr ((Some modified, changed), st))
      | Inl (PyBaseException msg) \<Rightarrow> Inl (PyBaseException msg)
      | Inl (PyException msg) \<Rightarrow>
          (case print (Error_processing file_path (PyException msg)) st of
             Inl err \<Rightarrow> Inl err
           | Inr st' \<Rightarrow> Inr ((None, False), st')))"

text \<open>\<^verbatim>\<open>Path.name\<close>: the last component of a path.\<close>

definition name_of :: "string \<Rightarrow> string" where
  "name_of p = rev (takeWhile (\<lambda>c. c \<noteq> CHR ''/'') (rev p))"

definition types_dir :: string where
  "types_dir = ''async-openai/src/types''"

text \<open>\<^verbatim>\<open>rust_file.relative_to(types_dir)\<close>, for a file found under that directory.\<close>

definition relative_to_types_dir :: "string \<Rightarrow> string" where
  "relative_to_types_dir p = drop (length types_dir + 1) p"

text \<open>
  The body of the two loops over files (lines 119 to 136 and 143 to 160). They differ
  in the name they print, \<open>shown\<close>. Nothing in the loops catches an exception: one
  that leaves \<^verbatim>\<open>add_utoipa_to_file\<close>, \<^verbatim>\<open>write_text\<close> or a \<^verbatim>\<open>print\<close> ends the walk.
\<close>

definition process_file :: "(string \<Rightarrow> string) \<Rightarrow> string \<Rightarrow> state \<Rightarrow> py_exception + state" where
  "process_file shown rust_file st =
     (if name_of rust_file = ''mod.rs'' then Inr st
      else
        case print (Processing (shown rust_file)) (st\<lparr>total_files := total_files st + 1\<rparr>) of
          Inl err \<Rightarrow> Inl err
        | Inr st1 \<Rightarrow>
            (case add_utoipa_to_file rust_file st1 of
               Inl err \<Rightarrow> Inl err
             | Inr ((result, was_modified), st2) \<Rightarrow>
                 (case result of
                    None \<Rightarrow> print (Failed_to_process (name_of rust_file)) st2
                  | Some text \<Rightarrow>
                      if was_modified then
                        (case write_error st2 rust_file of
                           Some err \<Rightarrow> Inl err
                         | None \<Rightarrow>
                             print (Modified (shown rust_file))
                               (st2\<lparr>files := (files st2)(rust_file := Inr text),
                                    files_modified := files_modified st2 + 1\<rparr>))
                      else print (No_changes (shown rust_file)) st2)))"

fun process_files :: "(string \<Rightarrow> string) \<Rightarrow> string list \<Rightarrow> state \<Rightarrow> py_exception + state" where
  "process_files shown [] st = Inr st"
| "process_files shown (rust_file # rest) st =
     (case process_file shown rust_file st of
        Inl e \<Rightarrow> Inl e
      | Inr st' \<Rightarrow> process_files shown rest st')"

text \<open>
  What the walk finds: whether the directory exists, the result of
  \<^verbatim>\<open>glob('*.rs')\<close>, and the entries of \<^verbatim>\<open>iterdir()\<close>, each with its name, whether it is
  a directory, and the result of its \<^verbatim>\<open>glob('**/*.rs')\<close>.
\<close>

record listing =
  dir_exists :: bool
  rs_files :: "string list"
  entries :: "(string \<times> bool \<times> string list) list"

fun process_subdirs :: "(string \<times> bool \<times> string list) list \<Rightarrow> state \<Rightarrow> py_exception + state" where
  "process_subdirs [] st = Inr st"
| "process_subdirs ((subdir, is_dir, found) # rest) st =
     (if is_dir then
        (case print (Processing_subdirectory subdir) st of
           Inl err \<Rightarrow> Inl err
         | Inr st0 \<Rightarrow>
             (case process_files relative_to_types_dir found st0 of
                Inl err \<Rightarrow> Inl err
              | Inr st' \<Rightarrow> process_subdirs rest st'))
      else process_subdirs rest st)"

definition process_types_directory :: "listing \<Rightarrow> state \<Rightarrow> py_exception + (bool \<times> state)" where
  "process_types_directory ls st =
     (if \<not> dir_exists ls then
        (case print Directory_not_found st of
           Inl err \<Rightarrow> Inl err
         | Inr st' \<Rightarrow> Inr (False, st'))
      else
        case print Processing_files (st\<lparr>files_modified := 0, total_files := 0\<rparr>) of
          Inl err \<Rightarrow> Inl err
        | Inr st0 \<Rightarrow>
            (case process_files name_of (rs_files ls) st0 of
               Inl err \<Rightarrow> Inl err
             | Inr st1 \<Rightarrow>
                 (case process_subdirs (entries ls) st1 of
                    Inl err \<Rightarrow> Inl err
                  | Inr st2 \<Rightarrow>
                      (case print (Summary (total_files st2) (files_modified st2)
                                     (total_files st2 - files_modified st2)) st2 of
                         Inl err \<Rightarrow> Inl err
                       | Inr st3 \<Rightarrow> Inr (True, st3)))))"

section \<open>Facts about the matcher and the pass\<close>

lemma contains_iff: "contains p s \<longleftrightarrow> (\<exists>a b. s = a @ p @ b)"
proof (induction s)
  case Nil
  then show ?case by auto
next
  case (Cons c cs)
  show ?case
  proof
    assume "contains p (c # cs)"
    then consider "prefix p (c # cs)" | "contains p cs" by auto
    then show "\<exists>a b. c # cs = a @ p @ b"
    proof cases
      case 1
      then obtain b where "c # cs = p @ b" by (auto simp: prefix_def)
      then have "c # cs = [] @ p @ b" by simp
      then show ?thesis by blast
    next
      case 2
      with Cons.IH obtain a b where "cs = a @ p @ b" by blast
      then have "c # cs = (c # a) @ p @ b" by simp
      then show ?thesis by blast
    qed
  next
    assume "\<exists>a b. c # cs = a @ p @ b"
    then obtain a b where ab: "c # cs = a @ p @ b" by blast
    show "contains p (c # cs)"
    proof (cases a)
      case Nil
      with ab have "prefix p (c # cs)" by (simp add: prefix_def)
      then show ?thesis by simp
    next
      case (Cons a1 as)
      with ab have "cs = as @ p @ b" by simp
      with Cons.IH have "contains p cs" by blast
      then show ?thesis by simp
    qed
  qed
qed

lemma star_iter_first:
  assumes "(x, r) \<in> set (star_iter f n s)"
  shows "x = [] \<or> (\<exists>x1 r1. (x1, r1) \<in> set (f s) \<and> x1 \<noteq> [] \<and> prefix x1 x)"
proof (cases n)
  case 0
  with assms show ?thesis by simp
next
  case (Suc k)
  with assms show ?thesis by (fastforce split: if_splits)
qed

lemma group2_re_prefix:
  assumes "(g, r) \<in> set (rmatch group2_re s)"
  shows "prefix ''#[derive('' g"
proof -
  from assms obtain x2 where "g = ''#[derive('' @ x2"
    unfolding group2_re_def Plus_def seqs.simps rmatch_Seq_iff rmatch_Lit_iff
    by (elim exE conjE) simp
  then show ?thesis by simp
qed

lemma group1_re_prefix:
  assumes "(g, r) \<in> set (rmatch group1_re s)"
  shows "g = [] \<or> prefix ''#['' g"
proof -
  let ?body = "Alt (seqs [Lit ''#['', NotChr CHR ''d'', Star (NotChr CHR '']''), Lit '']'', Star Space])
               (seqs [Lit ''#[d'', NegLook (Lit ''erive(''), Star (NotChr CHR '']''), Lit '']'',
                      Star Space])"
  from assms have "(g, r) \<in> set (star_iter (rmatch ?body) (length s) s)"
    by (simp only: group1_re_def rmatch.simps)
  from star_iter_first [OF this] consider "g = []"
    | x1 r1 where "(x1, r1) \<in> set (rmatch ?body s)" "prefix x1 g"
    by blast
  then show ?thesis
  proof cases
    case 1
    then show ?thesis by simp
  next
    case 2
    from 2(1) obtain y where "x1 = ''#['' @ y"
      unfolding seqs.simps rmatch_Alt_iff rmatch_Seq_iff rmatch_Lit_iff
      by (elim exE conjE disjE) simp_all
    then have "prefix ''#['' x1" by simp
    with 2(2) show ?thesis by (meson prefix_order.trans)
  qed
qed

lemma match_all_derive:
  assumes "m \<in> set (match_all s)"
  shows "prefix ''#[derive('' (group2 m)" and "group1 m = [] \<or> prefix ''#['' (group1 m)"
proof -
  from match_all_parts [OF assms] obtain r1 r2 where
    "(group1 m, r1) \<in> set (rmatch group1_re s)"
    "(group2 m, r2) \<in> set (rmatch group2_re r1)"
    by blast
  then show "prefix ''#[derive('' (group2 m)" and "group1 m = [] \<or> prefix ''#['' (group1 m)"
    by (auto dest: group2_re_prefix group1_re_prefix)
qed

lemma pattern_match_hash:
  assumes "pattern_match s = Some m"
  shows "\<exists>cs. s = CHR ''#'' # cs"
proof -
  have m: "m \<in> set (match_all s)" using assms by (rule pattern_match_Some)
  have s: "s = group1 m @ group2 m @ group3 m @ group4 m @ group5 m @ after_end m"
    using match_all_text [OF m] by (simp add: group0_def)
  from match_all_derive [OF m] obtain t where t: "group2 m = ''#[derive('' @ t"
    by (auto simp: prefix_def)
  from match_all_derive(2) [OF m] show ?thesis
  proof
    assume "group1 m = []"
    with s t show ?thesis by simp
  next
    assume "prefix ''#['' (group1 m)"
    then obtain u where "group1 m = ''#['' @ u" by (auto simp: prefix_def)
    with s show ?thesis by simp
  qed
qed

lemma pattern_match_contains_derive:
  assumes "pattern_match s = Some m"
  shows "contains ''#[derive('' s"
proof -
  have m: "m \<in> set (match_all s)" using assms by (rule pattern_match_Some)
  have s: "s = group1 m @ group2 m @ group3 m @ group4 m @ group5 m @ after_end m"
    using match_all_text [OF m] by (simp add: group0_def)
  from match_all_derive(1) [OF m] obtain t where t: "group2 m = ''#[derive('' @ t"
    by (auto simp: prefix_def)
  have "s = group1 m @ ''#[derive('' @ (t @ group3 m @ group4 m @ group5 m @ after_end m)"
    by (subst s, subst t) simp
  then show ?thesis unfolding contains_iff by blast
qed

lemma sub_segments_Nil: "sub_segments [] = []"
proof -
  have "pattern_match [] = None"
    using pattern_match_hash [of "[]"] by (cases "pattern_match []") auto
  then show ?thesis by (subst sub_segments.simps) simp
qed

lemma sub_segments_None:
  "pattern_match (c # cs) = None \<Longrightarrow> sub_segments (c # cs) = Plain c # sub_segments cs"
  by (subst sub_segments.simps) simp

lemma sub_segments_Some:
  "pattern_match s = Some m \<Longrightarrow> sub_segments s = Cand m # sub_segments (after_end m)"
  by (subst sub_segments.simps) simp

lemma sub_segments_no_hash:
  "CHR ''#'' \<notin> set s \<Longrightarrow> sub_segments s = map Plain s"
proof (induction s)
  case Nil
  then show ?case by (simp add: sub_segments_Nil)
next
  case (Cons c cs)
  then have "pattern_match (c # cs) = None"
    using pattern_match_hash [of "c # cs"] by (cases "pattern_match (c # cs)") auto
  with Cons show ?case by (simp add: sub_segments_None)
qed

lemma sub_segments_original: "concat (map original (sub_segments s)) = s"
proof (induction s rule: sub_segments.induct)
  case (1 s)
  show ?case
  proof (cases "pattern_match s")
    case None
    show ?thesis
    proof (cases s)
      case Nil
      then show ?thesis by (simp add: sub_segments_Nil)
    next
      case (Cons c cs)
      from "1.IH"(1) [OF None Cons] None Cons show ?thesis
        by (simp add: sub_segments_None)
    qed
  next
    case (Some m)
    have "concat (map original (sub_segments s)) = group0 m @ after_end m"
      using "1.IH"(2) [OF Some] by (simp add: sub_segments_Some [OF Some])
    with pattern_match_text [OF Some] show ?thesis by simp
  qed
qed

section \<open>The shape of the derive block\<close>

lemma star_iter_induct:
  assumes "(x, r) \<in> set (star_iter f n s)"
    and "P []"
    and "\<And>t y r' z. (y, r') \<in> set (f t) \<Longrightarrow> y \<noteq> [] \<Longrightarrow> P z \<Longrightarrow> P (y @ z)"
  shows "P x"
  using assms(1)
proof (induction n arbitrary: x s)
  case 0
  with assms(2) show ?case by simp
next
  case (Suc n)
  from Suc.prems consider "x = []"
    | y r' z where "(y, r') \<in> set (f s)" "y \<noteq> []" "(z, r) \<in> set (star_iter f n r')" "x = y @ z"
    by (fastforce split: if_splits)
  then show ?case
  proof cases
    case 1
    with assms(2) show ?thesis by simp
  next
    case 2
    from Suc.IH [OF 2(3)] have "P z" .
    with 2 assms(3) show ?thesis by blast
  qed
qed

lemma rmatch_Star_Space:
  assumes "(ws, r) \<in> set (rmatch (Star Space) s)"
  shows "\<forall>c \<in> set ws. isspace c"
proof -
  from assms have "(ws, r) \<in> set (star_iter (rmatch Space) (length s) s)" by simp
  then show ?thesis
  proof (rule star_iter_induct)
    show "\<forall>c \<in> set []. isspace c" by simp
  next
    fix t y r' z
    assume "(y, r') \<in> set (rmatch Space t)" and "\<forall>c \<in> set z. isspace c"
    then show "\<forall>c \<in> set (y @ z). isspace c"
      by (cases t) (auto split: if_splits)
  qed
qed

definition derive_attr_re :: regex where
  "derive_attr_re = seqs [Lit ''#[derive('', Plus (NotChr CHR '')''), Lit '')]'', Star Space]"

lemma group2_re_eq: "group2_re = Seq derive_attr_re (Star derive_attr_re)"
  by (simp add: group2_re_def derive_attr_re_def Plus_def)

lemma derive_attr_shape:
  assumes "(x, r) \<in> set (rmatch derive_attr_re s)"
  shows "\<exists>a ws. x = ''#[derive('' @ a @ '')]'' @ ws \<and> (\<forall>c \<in> set ws. isspace c)"
proof -
  from assms obtain a ws r1 r2 where
    "x = ''#[derive('' @ a @ '')]'' @ ws" "(ws, r2) \<in> set (rmatch (Star Space) r1)"
    unfolding derive_attr_re_def seqs.simps rmatch_Seq_iff rmatch_Lit_iff
    by (elim exE conjE) auto
  with rmatch_Star_Space show ?thesis by blast
qed

lemma group2_shape:
  assumes "(g, r) \<in> set (rmatch group2_re s)"
  shows "\<exists>a ws. g = ''#[derive('' @ a @ '')]'' @ ws \<and> (\<forall>c \<in> set ws. isspace c)"
proof -
  from assms obtain x1 r1 x2 where x1: "(x1, r1) \<in> set (rmatch derive_attr_re s)"
    and x2: "(x2, r) \<in> set (star_iter (rmatch derive_attr_re) (length r1) r1)"
    and g: "g = x1 @ x2"
    unfolding group2_re_eq rmatch_Seq_iff by auto
  let ?P = "\<lambda>z. z = [] \<or> (\<exists>b ws. z = b @ '')]'' @ ws \<and> (\<forall>c \<in> set ws. isspace c))"
  have "?P x2"
    using x2
  proof (rule star_iter_induct)
    show "?P []" by simp
  next
    fix t y r' z
    assume y: "(y, r') \<in> set (rmatch derive_attr_re t)" and z: "?P z"
    from derive_attr_shape [OF y] obtain a ws where
      yy: "y = ''#[derive('' @ a @ '')]'' @ ws" "\<forall>c \<in> set ws. isspace c"
      by blast
    from z show "?P (y @ z)"
    proof
      assume "z = []"
      with yy have "y @ z = (''#[derive('' @ a) @ '')]'' @ ws" by simp
      with yy(2) show ?thesis by blast
    next
      assume "\<exists>b ws. z = b @ '')]'' @ ws \<and> (\<forall>c \<in> set ws. isspace c)"
      then obtain b ws' where "z = b @ '')]'' @ ws'" "\<forall>c \<in> set ws'. isspace c" by blast
      then have "y @ z = (y @ b) @ '')]'' @ ws'" by simp
      with \<open>\<forall>c \<in> set ws'. isspace c\<close> show ?thesis by blast
    qed
  qed
  from derive_attr_shape [OF x1] obtain a ws where
    xx: "x1 = ''#[derive('' @ a @ '')]'' @ ws" "\<forall>c \<in> set ws. isspace c"
    by blast
  from \<open>?P x2\<close> show ?thesis
  proof
    assume "x2 = []"
    with g xx show ?thesis by auto
  next
    assume "\<exists>b ws. x2 = b @ '')]'' @ ws \<and> (\<forall>c \<in> set ws. isspace c)"
    then obtain b ws' where b: "x2 = b @ '')]'' @ ws'" "\<forall>c \<in> set ws'. isspace c" by blast
    with g xx have "g = ''#[derive('' @ (a @ '')]'' @ ws @ b) @ '')]'' @ ws'" by simp
    with b(2) show ?thesis by blast
  qed
qed

lemma rstrip_append_space:
  assumes "\<forall>c \<in> set ws. isspace c" and "\<not> isspace c"
  shows "rstrip (x @ [c] @ ws) = x @ [c]"
proof -
  have "dropWhile isspace (rev ws @ c # rev x) = c # rev x"
    using assms by (simp add: dropWhile_append)
  then show ?thesis by (simp add: rstrip_def)
qed

lemma trailing_space_append:
  assumes "\<forall>c \<in> set ws. isspace c" and "\<not> isspace c"
  shows "trailing_space (x @ [c] @ ws) = ws"
proof -
  have "takeWhile isspace (rev ws @ c # rev x) = rev ws"
    using assms by (simp add: takeWhile_append)
  then show ?thesis by (simp add: trailing_space_def)
qed

lemma match_group2_shape:
  assumes "m \<in> set (match_all s)"
  shows "\<exists>a. rstrip (group2 m) = ''#[derive('' @ a @ '')]''"
proof -
  from match_all_parts [OF assms] obtain r1 r2 where
    "(group2 m, r2) \<in> set (rmatch group2_re r1)" by blast
  from group2_shape [OF this] obtain a ws where
    g: "group2 m = ''#[derive('' @ a @ '')]'' @ ws" and ws: "\<forall>c \<in> set ws. isspace c"
    by blast
  have "\<not> isspace CHR '']''" by (simp add: isspace_def)
  from rstrip_append_space [OF ws this, of "''#[derive('' @ a @ '')''"] g
  have "rstrip (group2 m) = ''#[derive('' @ a @ '')]''" by simp
  then show ?thesis by blast
qed

section \<open>Body extraction\<close>

lemma opened_at_none: "CHR ''{'' \<notin> set pre \<Longrightarrow> opened_at pre = length pre"
  by (induction pre) (auto simp: opened_at_def)

lemma opened_at_less: "CHR ''{'' \<in> set pre \<Longrightarrow> opened_at pre < length pre"
  by (induction pre) (auto simp: opened_at_def)

lemma opened_at_le: "opened_at pre \<le> length pre"
  by (simp add: opened_at_def length_takeWhile_le)

lemma opened_at_append:
  "opened_at (pre @ cs) = (if CHR ''{'' \<in> set pre then opened_at pre else length pre + opened_at cs)"
  by (induction pre) (auto simp: opened_at_def)

lemma opened_at_snoc:
  "opened_at (pre @ [c]) =
     (if CHR ''{'' \<in> set pre then opened_at pre
      else if c = CHR ''{'' then length pre else Suc (length pre))"
  by (simp add: opened_at_append) (simp add: opened_at_def)

lemma depth_snoc:
  "depth (pre @ [c]) =
     (if c = CHR ''{'' then depth pre + 1 else if c = CHR ''}'' then depth pre - 1 else depth pre)"
  by (simp add: depth_def)

lemma stop_at_none:
  assumes "\<forall>j<length xs. \<not> closes xs j"
  shows "stop_at xs = length xs"
proof -
  have "find (closes xs) [0..<length xs] = None"
    using assms by (simp add: find_None_iff)
  then show ?thesis by (simp add: stop_at_def)
qed

lemma stop_at_first:
  assumes "closes xs n" and "\<forall>j<n. \<not> closes xs j"
  shows "stop_at xs = n"
proof -
  from assms(1) have n: "n < length xs" by (simp add: closes_def)
  have "find (closes xs) [0..<length xs] = Some n"
    unfolding find_Some_iff
  proof (intro exI [of _ n] conjI)
    show "n < length [0..<length xs]" using n by simp
    show "closes xs ([0..<length xs] ! n)" using n assms(1) by simp
    show "n = [0..<length xs] ! n" using n by simp
    show "\<forall>j<n. \<not> closes xs ([0..<length xs] ! j)" using n assms(2) by simp
  qed
  then show ?thesis by (simp add: stop_at_def)
qed

lemma scan_body_inv:
  assumes "\<forall>j<length pre. \<not> closes (pre @ cs) j"
  shows "scan_body cs (depth pre) (CHR ''{'' \<in> set pre) (drop (opened_at pre) pre) =
         body_rule (pre @ cs)"
  using assms
proof (induction cs arbitrary: pre)
  case Nil
  then have "stop_at pre = length pre" by (simp add: stop_at_none)
  then show ?case by (simp add: body_rule_def)
next
  case (Cons c cs)
  let ?t = "pre @ c # cs"
  have t: "?t = (pre @ [c]) @ cs" by simp
  have nth: "?t ! length pre = c" by simp
  have tk: "take (Suc (length pre)) ?t = pre @ [c]" by simp
  have acc: "drop (opened_at (pre @ [c])) (pre @ [c]) =
             (if c = CHR ''{'' \<or> CHR ''{'' \<in> set pre then drop (opened_at pre) pre @ [c] else [])"
  proof (cases "CHR ''{'' \<in> set pre")
    case True
    then show ?thesis using opened_at_le [of pre] by (simp add: opened_at_snoc)
  next
    case False
    then show ?thesis by (simp add: opened_at_snoc opened_at_none)
  qed
  have ins: "CHR ''{'' \<in> set (pre @ [c]) \<longleftrightarrow> c = CHR ''{'' \<or> CHR ''{'' \<in> set pre"
    by auto
  show ?case
  proof (cases "c = CHR ''}'' \<and> depth pre - 1 = 0 \<and> CHR ''{'' \<in> set pre")
    case True
    then have op: "opened_at ?t = opened_at pre" by (simp add: opened_at_append)
    have "closes ?t (length pre)"
      unfolding closes_def tk nth op using True opened_at_less [of pre]
      by (simp add: depth_snoc)
    from this Cons.prems have "stop_at ?t = length pre" by (rule stop_at_first)
    then have "body_rule ?t = drop (opened_at pre) pre"
      using opened_at_le [of pre] by (simp add: body_rule_def op)
    with True show ?thesis by simp
  next
    case False
    have "\<not> closes ?t (length pre)"
    proof
      assume cl: "closes ?t (length pre)"
      then have c: "c = CHR ''}''" and o: "opened_at ?t < length pre"
        and d: "depth (pre @ [c]) = 0"
        unfolding closes_def tk nth by auto
      from o have "CHR ''{'' \<in> set pre"
        by (auto simp: opened_at_append split: if_splits)
      with c d False show False by (simp add: depth_snoc)
    qed
    with Cons.prems have "\<forall>j<length (pre @ [c]). \<not> closes ((pre @ [c]) @ cs) j"
      by (auto simp: less_Suc_eq)
    from Cons.IH [OF this]
    have IH: "scan_body cs (depth (pre @ [c])) (CHR ''{'' \<in> set (pre @ [c]))
                (drop (opened_at (pre @ [c])) (pre @ [c])) = body_rule ?t"
      by simp
    show ?thesis
    proof (cases "c = CHR ''{''")
      case True
      with IH show ?thesis unfolding acc ins depth_snoc by simp
    next
      case nb: False
      show ?thesis
      proof (cases "c = CHR ''}''")
        case True
        with False nb IH show ?thesis unfolding acc ins depth_snoc
          by (auto simp: opened_at_none)
      next
        case False
        with nb IH show ?thesis unfolding acc ins depth_snoc
          by (auto simp: opened_at_none)
      qed
    qed
  qed
qed

lemma scan_body_opened:
  "1 \<le> d \<Longrightarrow> scan_body cs d True acc = claimed_scan cs d True acc"
proof (induction cs arbitrary: d acc)
  case Nil
  show ?case by simp
next
  case (Cons c cs)
  show ?case
  proof (cases "c = CHR ''}'' \<and> d - 1 = 0")
    case True
    then show ?thesis by simp
  next
    case False
    have "1 \<le> d + 1" and "c = CHR ''}'' \<Longrightarrow> 1 \<le> d - 1"
      using Cons.prems False by auto
    with Cons.IH Cons.prems False show ?thesis by (auto simp: Let_def)
  qed
qed

lemma scan_body_unopened:
  "CHR ''}'' \<notin> set (takeWhile (\<lambda>c. c \<noteq> CHR ''{'') cs) \<Longrightarrow>
     scan_body cs 0 False [] = claimed_scan cs 0 False []"
proof (induction cs)
  case Nil
  show ?case by simp
next
  case (Cons c cs)
  show ?case
  proof (cases "c = CHR ''{''")
    case True
    then show ?thesis using scan_body_opened [of 1 cs "[c]"] by simp
  next
    case False
    with Cons show ?thesis by (auto simp: Let_def)
  qed
qed

text \<open>
  C3, as the code has it. The loop goes through the text character by character,
  counts an opening brace up and a closing brace down, and collects from the first
  opening brace on. It stops at the first closing brace, after an opening one, that
  brings the count back to zero, and that brace is not collected; the count is tested
  at closing braces only, and closing braces before the first opening one are counted
  too. When no closing brace comes before the first opening brace this is the
  algorithm that the specification describes.
\<close>

theorem body_extraction:
  "extract_body rest_of_content = body_rule rest_of_content \<and>
   (CHR ''}'' \<notin> set (takeWhile (\<lambda>c. c \<noteq> CHR ''{'') rest_of_content) \<longrightarrow>
      extract_body rest_of_content = claimed_body rest_of_content)"
proof
  show "extract_body rest_of_content = body_rule rest_of_content"
    using scan_body_inv [of "[]" rest_of_content]
    by (simp add: extract_body_def depth_def opened_at_def)
  show "CHR ''}'' \<notin> set (takeWhile (\<lambda>c. c \<noteq> CHR ''{'') rest_of_content) \<longrightarrow>
      extract_body rest_of_content = claimed_body rest_of_content"
    by (simp add: extract_body_def claimed_body_def scan_body_unopened)
qed

theorem body_extraction_witness:
  "CHR ''}'' \<notin> set (takeWhile (\<lambda>c. c \<noteq> CHR ''{'') '' { a: { b } c } d { e }'') \<and>
   extract_body '' { a: { b } c } d { e }'' = ''{ a: { b } c '' \<and>
   body_rule '' { a: { b } c } d { e }'' = ''{ a: { b } c '' \<and>
   claimed_body '' { a: { b } c } d { e }'' = ''{ a: { b } c ''"
proof -
  have h: "CHR ''}'' \<notin> set (takeWhile (\<lambda>c. c \<noteq> CHR ''{'') '' { a: { b } c } d { e }'')"
    by simp
  have e: "extract_body '' { a: { b } c } d { e }'' = ''{ a: { b } c ''"
    by (simp add: extract_body_def)
  note t = body_extraction [of "'' { a: { b } c } d { e }''"]
  from t have r: "extract_body '' { a: { b } c } d { e }'' = body_rule '' { a: { b } c } d { e }''"
    by (rule conjunct1)
  from t have "CHR ''}'' \<notin> set (takeWhile (\<lambda>c. c \<noteq> CHR ''{'') '' { a: { b } c } d { e }'') \<longrightarrow>
      extract_body '' { a: { b } c } d { e }'' = claimed_body '' { a: { b } c } d { e }''"
    by (rule conjunct2)
  from this h have c: "extract_body '' { a: { b } c } d { e }'' =
      claimed_body '' { a: { b } c } d { e }''"
    by (rule mp)
  show ?thesis unfolding r [symmetric] c [symmetric] by (intro conjI h e)
qed

text \<open>
  The algorithm of the specification and the loop differ when a closing brace comes
  before the first opening one. On \<^verbatim>\<open>} { a } b\<close> the counter is back to zero right
  after the opening brace, where the specification stops with an empty body; the loop
  tests the counter at closing braces only, never finds it at zero, and collects to
  the end of the text.
\<close>

theorem body_extraction_counterexample:
  "extract_body ''} { a } b'' = ''{ a } b'' \<and> claimed_body ''} { a } b'' = []"
  by (simp add: extract_body_def claimed_body_def)

section \<open>Decisions of the callback\<close>

lemma re_sub_at:
  assumes "sub_segments content = pre @ Cand m # post"
  shows "content = concat (map original pre) @ group0 m @ concat (map original post)"
    and "re_sub repl content =
           concat (map (render repl) pre) @ repl m @ concat (map (render repl) post)"
proof -
  have "content = concat (map original (sub_segments content))"
    by (simp only: sub_segments_original)
  then show "content = concat (map original pre) @ group0 m @ concat (map original post)"
    unfolding assms by simp
  show "re_sub repl content =
           concat (map (render repl) pre) @ repl m @ concat (map (render repl) post)"
    unfolding re_sub_def assms by simp
qed


lemma add_separate_derive_qualifies: "qualifies m \<Longrightarrow> add_separate_derive m = annotated m"
  by (simp add: qualifies_def add_separate_derive_def)

lemma annotated_eq:
  "annotated m =
     group1 m @ rstrip (group2 m) @ [NL] @ derive_line @ [NL] @ group3 m @ group4 m @ group5 m"
  by (simp add: annotated_def)

lemma no_problematic_type_Nil: "\<not> has_problematic_type []"
  by (simp add: has_problematic_type_def problematic_types_def)

lemma scan_body_closed: "CHR ''{'' \<notin> set cs \<Longrightarrow> scan_body cs n False [] = []"
  by (induction cs arbitrary: n) auto

text \<open>
  C4. A candidate whose captured name is one of \<^verbatim>\<open>types_to_skip\<close> is returned as it
  was matched, whatever follows it: the output has the matched text at the place of
  the candidate.
\<close>

theorem exclusion_by_name:
  assumes "sub_segments content = pre @ Cand m # post"
    and "group6 m \<in> set types_to_skip"
  shows "add_separate_derive m = group0 m \<and>
         content = concat (map original pre) @ group0 m @ concat (map original post) \<and>
         fst (add_utoipa_to_content content) =
           concat (map (render add_separate_derive) pre) @ group0 m @
           concat (map (render add_separate_derive) post)"
proof -
  have skip: "add_separate_derive m = group0 m"
    using assms(2) by (simp add: add_separate_derive_def)
  from re_sub_at [OF assms(1)] skip show ?thesis
    by (simp add: add_utoipa_to_content_def Let_def)
qed

theorem exclusion_by_name_witness:
  "fst (add_utoipa_to_content
      ''#[derive(Debug, Clone)]\<newline>pub struct Image { data: Arc<String> }'') =
     ''#[derive(Debug, Clone)]\<newline>pub struct Image { data: Arc<String> }''"
proof -
  let ?c = "''#[derive(Debug, Clone)]\<newline>pub struct Image { data: Arc<String> }''"
  let ?m = "\<lparr>group1 = [], group2 = ''#[derive(Debug, Clone)]\<newline>'', group3 = [],
             group4 = [], group5 = ''pub struct Image'', group6 = ''Image'',
             after_end = '' { data: Arc<String> }''\<rparr>"
  have pm: "pattern_match ?c = Some ?m"
    by code_simp
  have tl: "sub_segments '' { data: Arc<String> }'' = map Plain '' { data: Arc<String> }''"
    by (rule sub_segments_no_hash) simp
  have segs: "sub_segments ?c = [] @ Cand ?m # map Plain '' { data: Arc<String> }''"
    using sub_segments_Some [OF pm] tl by simp
  have name: "group6 ?m \<in> set types_to_skip"
    by (simp add: types_to_skip_def)
  from exclusion_by_name [OF segs name] show ?thesis
    by (simp add: group0_def)
qed

text \<open>
  C5. A candidate whose extracted body contains one of the \<^verbatim>\<open>problematic_type\<close>
  substrings is returned as it was matched, whatever its name.
\<close>

theorem exclusion_by_body:
  assumes "sub_segments content = pre @ Cand m # post"
    and "problematic_type \<in> set problematic_types"
    and "contains problematic_type (extract_body (after_end m))"
  shows "add_separate_derive m = group0 m \<and>
         content = concat (map original pre) @ group0 m @ concat (map original post) \<and>
         fst (add_utoipa_to_content content) =
           concat (map (render add_separate_derive) pre) @ group0 m @
           concat (map (render add_separate_derive) post)"
proof -
  have "has_problematic_type (extract_body (after_end m))"
    unfolding has_problematic_type_def list_ex_iff using assms(2,3) by blast
  then have skip: "add_separate_derive m = group0 m"
    by (simp add: add_separate_derive_def)
  from re_sub_at [OF assms(1)] skip show ?thesis
    by (simp add: add_utoipa_to_content_def Let_def)
qed

theorem exclusion_by_body_witness:
  "fst (add_utoipa_to_content ''#[derive(Debug)]\<newline>pub struct Wrapper { path: PathBuf }'') =
     ''#[derive(Debug)]\<newline>pub struct Wrapper { path: PathBuf }''"
proof -
  let ?c = "''#[derive(Debug)]\<newline>pub struct Wrapper { path: PathBuf }''"
  let ?m = "\<lparr>group1 = [], group2 = ''#[derive(Debug)]\<newline>'', group3 = [],
             group4 = [], group5 = ''pub struct Wrapper'', group6 = ''Wrapper'',
             after_end = '' { path: PathBuf }''\<rparr>"
  have pm: "pattern_match ?c = Some ?m"
    by code_simp
  have tl: "sub_segments '' { path: PathBuf }'' = map Plain '' { path: PathBuf }''"
    by (rule sub_segments_no_hash) simp
  have segs: "sub_segments ?c = [] @ Cand ?m # map Plain '' { path: PathBuf }''"
    using sub_segments_Some [OF pm] tl by simp
  have p: "''PathBuf'' \<in> set problematic_types"
    by (simp add: problematic_types_def)
  have b: "contains ''PathBuf'' (extract_body (after_end ?m))"
    by (simp add: extract_body_def)
  from exclusion_by_body [OF segs p b] show ?thesis
    by (simp add: group0_def)
qed

text \<open>
  C10. When the text after a match has no opening brace, the extracted body is empty
  and no \<^verbatim>\<open>problematic_type\<close> occurs in it. Such a candidate is annotated as soon as
  its derive block lacks the marker and its name is not in \<^verbatim>\<open>types_to_skip\<close>, whatever
  stands between its parentheses.
\<close>

theorem no_brace_annotated:
  assumes "sub_segments content = pre @ Cand m # post"
    and "CHR ''{'' \<notin> set (after_end m)"
    and "\<not> contains marker (rstrip (group2 m))"
    and "group6 m \<notin> set types_to_skip"
  shows "extract_body (after_end m) = [] \<and>
         \<not> has_problematic_type (extract_body (after_end m)) \<and>
         add_separate_derive m =
           group1 m @ rstrip (group2 m) @ [NL] @ derive_line @ [NL] @
           group3 m @ group4 m @ group5 m \<and>
         fst (add_utoipa_to_content content) =
           concat (map (render add_separate_derive) pre) @
           (group1 m @ rstrip (group2 m) @ [NL] @ derive_line @ [NL] @
            group3 m @ group4 m @ group5 m) @
           concat (map (render add_separate_derive) post)"
proof -
  have body: "extract_body (after_end m) = []"
    using assms(2) by (simp add: extract_body_def scan_body_closed)
  then have np: "\<not> has_problematic_type (extract_body (after_end m))"
    by (simp add: no_problematic_type_Nil)
  with assms(3,4) have "qualifies m" by (simp add: qualifies_def)
  then have ann: "add_separate_derive m =
           group1 m @ rstrip (group2 m) @ [NL] @ derive_line @ [NL] @
           group3 m @ group4 m @ group5 m"
    by (simp only: add_separate_derive_qualifies annotated_eq)
  have out: "fst (add_utoipa_to_content content) =
           concat (map (render add_separate_derive) pre) @ add_separate_derive m @
           concat (map (render add_separate_derive) post)"
    using re_sub_at(2) [OF assms(1)] by (simp add: add_utoipa_to_content_def Let_def)
  show ?thesis
    using body np ann out by (simp only: simp_thms)
qed

theorem no_brace_annotated_witness:
  "fst (add_utoipa_to_content ''#[derive(Debug)]\<newline>pub struct Foo(PathBuf);'') =
     ''#[derive(Debug)]\<newline>#[derive(utoipa::ToSchema)]\<newline>pub struct Foo(PathBuf);''"
proof -
  let ?c = "''#[derive(Debug)]\<newline>pub struct Foo(PathBuf);''"
  let ?m = "\<lparr>group1 = [], group2 = ''#[derive(Debug)]\<newline>'', group3 = [],
             group4 = [], group5 = ''pub struct Foo'', group6 = ''Foo'',
             after_end = ''(PathBuf);''\<rparr>"
  have pm: "pattern_match ?c = Some ?m"
    by code_simp
  have tl: "sub_segments ''(PathBuf);'' = map Plain ''(PathBuf);''"
    by (rule sub_segments_no_hash) simp
  have segs: "sub_segments ?c = [] @ Cand ?m # map Plain ''(PathBuf);''"
    using sub_segments_Some [OF pm] tl by simp
  have nb: "CHR ''{'' \<notin> set (after_end ?m)"
    by simp
  have nm: "\<not> contains marker (rstrip (group2 ?m))"
    by code_simp
  have ns: "group6 ?m \<notin> set types_to_skip"
    by (simp add: types_to_skip_def)
  have r: "rstrip ''#[derive(Debug)]\<newline>'' = ''#[derive(Debug)]''"
    by code_simp
  from no_brace_annotated [OF segs nb nm ns] show ?thesis
    by (simp add: r NL_def derive_line_def)
qed

section \<open>Texts without candidates\<close>

lemma render_Plain: "concat (map (render repl) (map Plain s)) = s"
  by (induction s) simp_all

lemma no_match_segments:
  "(\<forall>t \<in> set (suffixes s). pattern_match t = None) \<Longrightarrow> sub_segments s = map Plain s"
proof (induction s)
  case Nil
  then show ?case by (simp add: sub_segments_Nil)
next
  case (Cons c cs)
  then have "pattern_match (c # cs) = None" and "sub_segments cs = map Plain cs"
    by simp_all
  then show ?case by (simp add: sub_segments_None)
qed

lemma no_derive_no_match:
  assumes "\<not> contains ''#[derive('' s" and "t \<in> set (suffixes s)"
  shows "pattern_match t = None"
proof (cases "pattern_match t")
  case None
  then show ?thesis .
next
  case (Some m)
  from pattern_match_contains_derive [OF Some] obtain a b where "t = a @ ''#[derive('' @ b"
    unfolding contains_iff by blast
  moreover from assms(2) obtain u where "s = u @ t"
    by (auto simp: in_set_suffixes suffix_def)
  ultimately have "s = (u @ a) @ ''#[derive('' @ b" by simp
  then have "contains ''#[derive('' s" unfolding contains_iff by blast
  with assms(1) show ?thesis by simp
qed

lemma unchanged_without_match:
  assumes "\<forall>t \<in> set (suffixes content). pattern_match t = None"
  shows "add_utoipa_to_content content = (content, False)"
proof -
  from assms have "sub_segments content = map Plain content"
    by (rule no_match_segments)
  then have "re_sub add_separate_derive content = content"
    unfolding re_sub_def by (simp only: render_Plain)
  then show ?thesis
    by (simp add: add_utoipa_to_content_def)
qed

lemma unchanged_without_derive:
  assumes "\<not> contains ''#[derive('' content"
  shows "add_utoipa_to_content content = (content, False)"
  using assms no_derive_no_match [of content] by (intro unchanged_without_match) blast

lemma no_match_without_hash: "\<not> prefix ''#'' s \<Longrightarrow> pattern_match s = None"
  using pattern_match_hash [of s] by (cases "pattern_match s") auto

text \<open>
  The scan reaches the end of a prefix of the text when every match that starts in
  the prefix ends in it. A part of the text in which no match starts is copied.
\<close>

lemma segments_before:
  "\<forall>j<length pre. \<forall>m. pattern_match (drop j (pre @ rest)) = Some m \<longrightarrow>
       j + length (group0 m) \<le> length pre \<Longrightarrow>
   \<exists>S. concat (map original S) = pre \<and> sub_segments (pre @ rest) = S @ sub_segments rest"
proof (induction pre rule: length_induct)
  case (1 pre)
  show ?case
  proof (cases pre)
    case Nil
    then show ?thesis by simp
  next
    case (Cons c pre')
    show ?thesis
    proof (cases "pattern_match (pre @ rest)")
      case None
      have "\<forall>j<length pre'. \<forall>m. pattern_match (drop j (pre' @ rest)) = Some m \<longrightarrow>
              j + length (group0 m) \<le> length pre'"
      proof (intro allI impI)
        fix j m
        assume j: "j < length pre'" and m: "pattern_match (drop j (pre' @ rest)) = Some m"
        from j have "Suc j < length pre" by (simp add: Cons)
        moreover from m have "pattern_match (drop (Suc j) (pre @ rest)) = Some m"
          by (simp add: Cons)
        ultimately have "Suc j + length (group0 m) \<le> length pre" using "1.prems" by blast
        then show "j + length (group0 m) \<le> length pre'" by (simp add: Cons)
      qed
      with "1.IH" Cons obtain S where S: "concat (map original S) = pre'"
        "sub_segments (pre' @ rest) = S @ sub_segments rest"
        by auto
      from None have "sub_segments (pre @ rest) = Plain c # sub_segments (pre' @ rest)"
        by (simp add: Cons sub_segments_None)
      with S Cons have "concat (map original (Plain c # S)) = pre \<and>
          sub_segments (pre @ rest) = (Plain c # S) @ sub_segments rest"
        by simp
      then show ?thesis by blast
    next
      case (Some m)
      have t: "pre @ rest = group0 m @ after_end m" using Some by (rule pattern_match_text)
      from Some have sh: "length (after_end m) < length (pre @ rest)"
        by (rule pattern_match_shorter)
      have "0 < length pre" by (simp add: Cons)
      moreover have "pattern_match (drop 0 (pre @ rest)) = Some m" using Some by simp
      ultimately have le: "0 + length (group0 m) \<le> length pre" using "1.prems" by blast
      define p2 where "p2 = drop (length (group0 m)) pre"
      have "take (length (group0 m)) (pre @ rest) =
            take (length (group0 m)) (group0 m @ after_end m)"
        by (simp only: t)
      with le have g: "take (length (group0 m)) pre = group0 m" by simp
      have "pre = take (length (group0 m)) pre @ drop (length (group0 m)) pre" by simp
      then have pre: "pre = group0 m @ p2" by (simp only: g p2_def)
      from t have "group0 m @ p2 @ rest = group0 m @ after_end m"
        by (subst (asm) pre) simp
      then have ae: "after_end m = p2 @ rest" by simp
      from sh have "length (after_end m) < length (group0 m @ after_end m)"
        by (simp only: t)
      then have ne: "0 < length (group0 m)" by simp
      have l: "length pre = length (group0 m) + length p2"
        by (subst pre) simp
      with ne have short: "length p2 < length pre" by simp
      have "\<forall>j<length p2. \<forall>m'. pattern_match (drop j (p2 @ rest)) = Some m' \<longrightarrow>
              j + length (group0 m') \<le> length p2"
      proof (intro allI impI)
        fix j m'
        assume j: "j < length p2" and m': "pattern_match (drop j (p2 @ rest)) = Some m'"
        from j l have "length (group0 m) + j < length pre" by simp
        moreover have "drop (length (group0 m) + j) (pre @ rest) = drop j (p2 @ rest)"
          by (subst pre) (simp add: drop_append)
        with m' have "pattern_match (drop (length (group0 m) + j) (pre @ rest)) = Some m'"
          by simp
        ultimately have "length (group0 m) + j + length (group0 m') \<le> length pre"
          using "1.prems" by blast
        with l show "j + length (group0 m') \<le> length p2" by simp
      qed
      with "1.IH" short obtain S where S: "concat (map original S) = p2"
        "sub_segments (p2 @ rest) = S @ sub_segments rest"
        by blast
      from Some have "sub_segments (pre @ rest) = Cand m # sub_segments (after_end m)"
        by (rule sub_segments_Some)
      with S ae pre have "concat (map original (Cand m # S)) = pre \<and>
          sub_segments (pre @ rest) = (Cand m # S) @ sub_segments rest"
        by simp
      then show ?thesis by blast
    qed
  qed
qed

lemma segments_inside:
  "\<forall>i<length x. pattern_match (drop i x @ post) = None \<Longrightarrow>
     sub_segments (x @ post) = map Plain x @ sub_segments post"
proof (induction x)
  case Nil
  show ?case by simp
next
  case (Cons c x)
  have "0 < length (c # x)" by simp
  with Cons.prems have "pattern_match (drop 0 (c # x) @ post) = None" by blast
  then have 1: "sub_segments ((c # x) @ post) = Plain c # sub_segments (x @ post)"
    by (simp add: sub_segments_None)
  have "\<forall>i<length x. pattern_match (drop i x @ post) = None"
  proof (intro allI impI)
    fix i
    assume "i < length x"
    then have "Suc i < length (c # x)" by simp
    with Cons.prems have "pattern_match (drop (Suc i) (c # x) @ post) = None" by blast
    then show "pattern_match (drop i x @ post) = None" by simp
  qed
  with Cons.IH 1 show ?case by simp
qed

text \<open>
  C6. In every text, a portion that no match of the pattern overlaps is returned
  unchanged, at its place: when every match that starts before the portion ends before
  it starts, and no match starts in it, the scan copies the portion character by character,
  and the output is the output for what precedes, the portion, and the output of the
  text that follows. The text is any text: it can hold candidates before and after the
  portion. The witness is a declaration without a derive attribute, with another
  attribute, that stands between two candidates.
\<close>

theorem no_match_passthrough:
  assumes "\<forall>j<length pre.
             (case pattern_match (drop j (pre @ x @ post)) of
                None \<Rightarrow> True
              | Some m \<Rightarrow> j + length (group0 m) \<le> length pre)"
    and "\<forall>i<length x. pattern_match (drop i x @ post) = None"
  shows "\<exists>S. concat (map original S) = pre \<and>
             sub_segments (pre @ x @ post) = S @ map Plain x @ sub_segments post \<and>
             fst (add_utoipa_to_content (pre @ x @ post)) =
               concat (map (render add_separate_derive) S) @ x @
               fst (add_utoipa_to_content post)"
proof -
  have "\<forall>j<length pre. \<forall>m. pattern_match (drop j (pre @ x @ post)) = Some m \<longrightarrow>
          j + length (group0 m) \<le> length pre"
  proof (intro allI impI)
    fix j m
    assume "j < length pre" and m: "pattern_match (drop j (pre @ x @ post)) = Some m"
    with assms(1) have "case pattern_match (drop j (pre @ x @ post)) of
        None \<Rightarrow> True | Some m \<Rightarrow> j + length (group0 m) \<le> length pre"
      by blast
    with m show "j + length (group0 m) \<le> length pre" by simp
  qed
  from segments_before [OF this] obtain S where S: "concat (map original S) = pre"
    "sub_segments (pre @ x @ post) = S @ sub_segments (x @ post)"
    by blast
  from S(2) segments_inside [OF assms(2)]
  have seg: "sub_segments (pre @ x @ post) = S @ map Plain x @ sub_segments post"
    by simp
  have "re_sub add_separate_derive (pre @ x @ post) =
          concat (map (render add_separate_derive) S) @
          concat (map (render add_separate_derive) (map Plain x)) @
          re_sub add_separate_derive post"
    by (simp only: re_sub_def seg map_append concat_append)
  then have "fst (add_utoipa_to_content (pre @ x @ post)) =
          concat (map (render add_separate_derive) S) @ x @ fst (add_utoipa_to_content post)"
    by (simp only: add_utoipa_to_content_def Let_def fst_conv render_Plain)
  with S(1) seg show ?thesis by blast
qed

theorem no_match_passthrough_witness:
  "\<exists>S. concat (map original S) = ''#[derive(Debug)]\<newline>pub struct A'' \<and>
       fst (add_utoipa_to_content
             (''#[derive(Debug)]\<newline>pub struct A'' @
              '' {}\<newline>#[serde(x)]\<newline>pub struct B { b: u8 }\<newline>'' @
              ''#[derive(Clone)]\<newline>pub enum C {}'')) =
         concat (map (render add_separate_derive) S) @
         '' {}\<newline>#[serde(x)]\<newline>pub struct B { b: u8 }\<newline>'' @
         fst (add_utoipa_to_content ''#[derive(Clone)]\<newline>pub enum C {}'')"
proof -
  let ?pre = "''#[derive(Debug)]\<newline>pub struct A''"
  let ?x = "'' {}\<newline>#[serde(x)]\<newline>pub struct B { b: u8 }\<newline>''"
  let ?post = "''#[derive(Clone)]\<newline>pub enum C {}''"
  have h1: "\<forall>j<length ?pre.
      (case pattern_match (drop j (?pre @ ?x @ ?post)) of
         None \<Rightarrow> True
       | Some m \<Rightarrow> j + length (group0 m) \<le> length ?pre)"
    by code_simp
  have h2: "\<forall>i<length ?x. pattern_match (drop i ?x @ ?post) = None"
    by code_simp
  from no_match_passthrough [OF h1 h2] show ?thesis by blast
qed

section \<open>The changed flag\<close>

lemma rstrip_trailing_space: "rstrip s @ trailing_space s = s"
proof -
  have "rstrip s @ trailing_space s = rev (takeWhile isspace (rev s) @ dropWhile isspace (rev s))"
    by (simp only: rstrip_def trailing_space_def rev_append)
  then show ?thesis by simp
qed

lemma trailing_space_isspace: "c \<in> set (trailing_space s) \<Longrightarrow> isspace c"
  by (auto simp: trailing_space_def dest: set_takeWhileD)

lemma count_list_append_char:
  "count_list (xs @ ys) (c :: char) = count_list xs c + count_list ys c"
  by (induction xs) simp_all












section \<open>Where the derive line is inserted\<close>

lemma sub_segments_Cand:
  "Cand m \<in> set (sub_segments s) \<Longrightarrow> \<exists>t. suffix t s \<and> pattern_match t = Some m"
proof (induction s rule: sub_segments.induct)
  case (1 s)
  show ?case
  proof (cases "pattern_match s")
    case None
    show ?thesis
    proof (cases s)
      case Nil
      with "1.prems" show ?thesis by (simp add: sub_segments_Nil)
    next
      case (Cons c cs)
      with None "1.prems" have "Cand m \<in> set (sub_segments cs)"
        by (simp add: sub_segments_None)
      from "1.IH"(1) [OF None Cons this] obtain t where "suffix t cs" "pattern_match t = Some m"
        by blast
      with Cons show ?thesis by (auto simp: suffix_Cons)
    qed
  next
    case (Some m')
    from "1.prems" have "m = m' \<or> Cand m \<in> set (sub_segments (after_end m'))"
      by (simp add: sub_segments_Some [OF Some])
    then show ?thesis
    proof
      assume "m = m'"
      with Some show ?thesis by auto
    next
      assume "Cand m \<in> set (sub_segments (after_end m'))"
      from "1.IH"(2) [OF Some this] obtain t where
        t: "suffix t (after_end m')" "pattern_match t = Some m"
        by blast
      from pattern_match_text [OF Some] have "suffix (after_end m') s"
        by (metis suffixI)
      with t show ?thesis by (meson suffix_order.trans)
    qed
  qed
qed

lemma sub_segments_skip:
  "c \<noteq> CHR ''#'' \<Longrightarrow> sub_segments (c # cs) = Plain c # sub_segments cs"
  using pattern_match_hash [of "c # cs"]
  by (cases "pattern_match (c # cs)") (auto simp: sub_segments_None)

lemma count_list_insert:
  "count_list (p @ q) (c :: char) \<le> count_list (p @ ins @ q) c"
  by (simp add: count_list_append_char)

text \<open>
  C2, as the code has it. For a qualifying candidate the output carries, at the place
  of the candidate, group 1, the derive block without its trailing whitespace, a
  newline, the line \<^verbatim>\<open>#[derive(utoipa::ToSchema)]\<close>, a newline, and groups 3, 4
  and 5. The derive block starts with \<^verbatim>\<open>#[derive(\<close> and, stripped, ends with
  \<^verbatim>\<open>)]\<close>; the new line comes right after it and before the other attributes, the doc
  comments and the header, all of them kept as they were. The whitespace that the
  pattern captured at the end of the derive block is not kept: a single newline
  stands in its place. When that whitespace is one newline, the replacement is the
  matched text with the new line inserted after the derive block.
\<close>

theorem insertion_placement:
  assumes "sub_segments content = pre @ Cand m # post"
    and "qualifies m"
  shows "content =
           concat (map original pre) @
           (group1 m @ rstrip (group2 m) @ trailing_space (group2 m) @
            group3 m @ group4 m @ group5 m) @
           concat (map original post) \<and>
         fst (add_utoipa_to_content content) =
           concat (map (render add_separate_derive) pre) @
           (group1 m @ rstrip (group2 m) @ [NL] @ derive_line @ [NL] @
            group3 m @ group4 m @ group5 m) @
           concat (map (render add_separate_derive) post) \<and>
         prefix ''#[derive('' (rstrip (group2 m)) \<and>
         suffix '')]'' (rstrip (group2 m)) \<and>
         list_all isspace (trailing_space (group2 m)) \<and>
         (if trailing_space (group2 m) = [NL]
          then add_separate_derive m =
                 group1 m @ group2 m @ (derive_line @ [NL]) @ group3 m @ group4 m @ group5 m
          else add_separate_derive m \<noteq>
                 group1 m @ group2 m @ (derive_line @ [NL]) @ group3 m @ group4 m @ group5 m)"
proof -
  have ann: "add_separate_derive m =
           group1 m @ rstrip (group2 m) @ [NL] @ derive_line @ [NL] @
           group3 m @ group4 m @ group5 m"
    using assms(2) by (simp only: add_separate_derive_qualifies annotated_eq)
  have g2: "group2 m = rstrip (group2 m) @ trailing_space (group2 m)"
    by (simp only: rstrip_trailing_space)
  have "content = concat (map original pre) @ group0 m @ concat (map original post)"
    by (rule re_sub_at(1) [OF assms(1)])
  then have 1: "content =
           concat (map original pre) @
           (group1 m @ rstrip (group2 m) @ trailing_space (group2 m) @
            group3 m @ group4 m @ group5 m) @
           concat (map original post)"
    unfolding group0_def by (subst (asm) g2) simp
  have 2: "fst (add_utoipa_to_content content) =
           concat (map (render add_separate_derive) pre) @
           (group1 m @ rstrip (group2 m) @ [NL] @ derive_line @ [NL] @
            group3 m @ group4 m @ group5 m) @
           concat (map (render add_separate_derive) post)"
    using re_sub_at(2) [OF assms(1), of add_separate_derive] ann
    by (simp add: add_utoipa_to_content_def Let_def)
  have "Cand m \<in> set (sub_segments content)"
    by (simp add: assms(1))
  then obtain t where "pattern_match t = Some m"
    using sub_segments_Cand by blast
  then have "m \<in> set (match_all t)" by (rule pattern_match_Some)
  from match_group2_shape [OF this] obtain a where
    a: "rstrip (group2 m) = ''#[derive('' @ a @ '')]''"
    by blast
  have 3: "prefix ''#[derive('' (rstrip (group2 m))"
    unfolding a by simp
  have 4: "suffix '')]'' (rstrip (group2 m))"
    unfolding a by (metis append.assoc suffixI)
  have 5: "list_all isspace (trailing_space (group2 m))"
    using trailing_space_isspace by (auto simp: list_all_iff)
  have 6: "add_separate_derive m =
             group1 m @ group2 m @ (derive_line @ [NL]) @ group3 m @ group4 m @ group5 m
           \<longleftrightarrow> trailing_space (group2 m) = [NL]"
  proof -
    have "add_separate_derive m =
             group1 m @ group2 m @ (derive_line @ [NL]) @ group3 m @ group4 m @ group5 m
          \<longleftrightarrow> [NL] @ derive_line @ [NL] @ group3 m @ group4 m @ group5 m =
               trailing_space (group2 m) @ derive_line @ [NL] @ group3 m @ group4 m @ group5 m"
      unfolding ann by (subst (2) g2) simp
    also have "\<dots> \<longleftrightarrow> [NL] = trailing_space (group2 m)"
      by (metis append_same_eq append.assoc)
    finally show ?thesis by auto
  qed
  from 1 2 3 4 5 6 show ?thesis by simp
qed

theorem insertion_placement_witness:
  "qualifies \<lparr>group1 = [], group2 = ''#[derive(Debug, Clone)]\<newline>'',
              group3 = ''#[serde(x)]\<newline>'', group4 = ''/// doc\<newline>'',
              group5 = ''pub struct Foo'', group6 = ''Foo'',
              after_end = '' { bar: String }''\<rparr> \<and>
   fst (add_utoipa_to_content
     ''#[derive(Debug, Clone)]\<newline>#[serde(x)]\<newline>/// doc\<newline>pub struct Foo { bar: String }'') =
     ''#[derive(Debug, Clone)]\<newline>#[derive(utoipa::ToSchema)]\<newline>#[serde(x)]\<newline>/// doc\<newline>pub struct Foo { bar: String }''"
proof -
  let ?c = "''#[derive(Debug, Clone)]\<newline>#[serde(x)]\<newline>/// doc\<newline>pub struct Foo { bar: String }''"
  let ?m = "\<lparr>group1 = [], group2 = ''#[derive(Debug, Clone)]\<newline>'',
              group3 = ''#[serde(x)]\<newline>'', group4 = ''/// doc\<newline>'',
              group5 = ''pub struct Foo'', group6 = ''Foo'',
              after_end = '' { bar: String }''\<rparr>"
  have pm: "pattern_match ?c = Some ?m"
    by code_simp
  have tl: "sub_segments '' { bar: String }'' = map Plain '' { bar: String }''"
    by (rule sub_segments_no_hash) simp
  have segs: "sub_segments ?c = [] @ Cand ?m # map Plain '' { bar: String }''"
    using sub_segments_Some [OF pm] tl by simp
  have q: "qualifies ?m"
    by code_simp
  have r: "rstrip ''#[derive(Debug, Clone)]\<newline>'' = ''#[derive(Debug, Clone)]''"
    by code_simp
  from insertion_placement [OF segs q]
  have "fst (add_utoipa_to_content ?c) =
     ''#[derive(Debug, Clone)]\<newline>#[derive(utoipa::ToSchema)]\<newline>#[serde(x)]\<newline>/// doc\<newline>pub struct Foo { bar: String }''"
    by (simp add: r NL_def derive_line_def)
  with q show ?thesis by (rule conjI)
qed

text \<open>
  C2, as the specification states it, fails on an indented declaration: the four
  spaces before \<^verbatim>\<open>pub struct\<close> are part of the whitespace that ends the derive
  block, and the output does not have them. The output is not the input with text
  inserted at one place.
\<close>

theorem insertion_placement_counterexample:
  "fst (add_utoipa_to_content ''    #[derive(Debug)]\<newline>    pub struct Foo {}'') =
     ''    #[derive(Debug)]\<newline>#[derive(utoipa::ToSchema)]\<newline>pub struct Foo {}'' \<and>
   \<not> (\<exists>p ins q.
        ''    #[derive(Debug)]\<newline>    pub struct Foo {}'' = p @ q \<and>
        fst (add_utoipa_to_content ''    #[derive(Debug)]\<newline>    pub struct Foo {}'') =
          p @ ins @ q)"
proof -
  let ?c = "''#[derive(Debug)]\<newline>    pub struct Foo {}''"
  let ?m = "\<lparr>group1 = [], group2 = ''#[derive(Debug)]\<newline>    '', group3 = [],
             group4 = [], group5 = ''pub struct Foo'', group6 = ''Foo'',
             after_end = '' {}''\<rparr>"
  have pm: "pattern_match ?c = Some ?m"
    by code_simp
  have tl: "sub_segments '' {}'' = map Plain '' {}''"
    by (rule sub_segments_no_hash) simp
  have segs: "sub_segments (''    '' @ ?c) = map Plain ''    '' @ Cand ?m # map Plain '' {}''"
    using sub_segments_Some [OF pm] tl by (simp add: sub_segments_skip)
  have repl: "add_separate_derive ?m =
     ''#[derive(Debug)]\<newline>#[derive(utoipa::ToSchema)]\<newline>pub struct Foo''"
    by code_simp
  have out: "fst (add_utoipa_to_content ''    #[derive(Debug)]\<newline>    pub struct Foo {}'') =
     ''    #[derive(Debug)]\<newline>#[derive(utoipa::ToSchema)]\<newline>pub struct Foo {}''"
    using segs by (simp add: add_utoipa_to_content_def re_sub_def Let_def repl)
  have "\<not> (\<exists>p ins q.
        ''    #[derive(Debug)]\<newline>    pub struct Foo {}'' = p @ q \<and>
        ''    #[derive(Debug)]\<newline>#[derive(utoipa::ToSchema)]\<newline>pub struct Foo {}'' =
          p @ ins @ q)"
  proof
    assume "\<exists>p ins q.
        ''    #[derive(Debug)]\<newline>    pub struct Foo {}'' = p @ q \<and>
        ''    #[derive(Debug)]\<newline>#[derive(utoipa::ToSchema)]\<newline>pub struct Foo {}'' =
          p @ ins @ q"
    then obtain p ins q where
      x: "''    #[derive(Debug)]\<newline>    pub struct Foo {}'' = p @ q" and
      y: "''    #[derive(Debug)]\<newline>#[derive(utoipa::ToSchema)]\<newline>pub struct Foo {}'' =
          p @ ins @ q"
      by blast
    have "count_list (p @ q) CHR '' '' \<le> count_list (p @ ins @ q) CHR '' ''"
      by (rule count_list_insert)
    then have "count_list ''    #[derive(Debug)]\<newline>    pub struct Foo {}'' CHR '' '' \<le>
      count_list ''    #[derive(Debug)]\<newline>#[derive(utoipa::ToSchema)]\<newline>pub struct Foo {}'' CHR '' ''"
      by (simp only: x [symmetric] y [symmetric])
    then show False by simp
  qed
  with out show ?thesis by (simp only: simp_thms)
qed

section \<open>A file that cannot be read\<close>

lemma add_utoipa_to_file_raises:
  "(\<exists>err. add_utoipa_to_file file_path st = Inl err) \<longleftrightarrow>
     (\<exists>msg. files st file_path = Inl (PyBaseException msg)) \<or>
     (\<exists>msg err. files st file_path = Inl (PyException msg) \<and>
        print_error st (Error_processing file_path (PyException msg)) = Some err)"
proof (cases "files st file_path")
  case (Inr content)
  then show ?thesis by (simp add: add_utoipa_to_file_def split_def Let_def)
next
  case (Inl e)
  show ?thesis
  proof (cases e)
    case (PyBaseException msg)
    with Inl show ?thesis by (simp add: add_utoipa_to_file_def)
  next
    case (PyException msg)
    with Inl show ?thesis
      by (cases "print_error st (Error_processing file_path (PyException msg))")
        (simp_all add: add_utoipa_to_file_def print_def)
  qed
qed

text \<open>
  C9, as the code has it. An exception leaves \<^verbatim>\<open>add_utoipa_to_file\<close> in two cases
  only: reading the file raises one that is not an \<^verbatim>\<open>Exception\<close>, or it raises an
  \<^verbatim>\<open>Exception\<close> and the \<^verbatim>\<open>print\<close> of the handler raises. When reading raises an
  \<^verbatim>\<open>Exception\<close> and no \<^verbatim>\<open>print\<close> raises, the result is \<^verbatim>\<open>(None, False)\<close> and the
  error is printed with the path; the loop then prints that the file failed, with its
  name, and goes on with the remaining files, no file written and none counted as
  modified.
\<close>

theorem read_failure_continues:
  "((\<exists>err. add_utoipa_to_file rust_file st = Inl err) \<longleftrightarrow>
      (\<exists>msg. files st rust_file = Inl (PyBaseException msg)) \<or>
      (\<exists>msg err. files st rust_file = Inl (PyException msg) \<and>
         print_error st (Error_processing rust_file (PyException msg)) = Some err)) \<and>
   (files st rust_file = Inl (PyException msg) \<and> name_of rust_file \<noteq> ''mod.rs'' \<and>
    (\<forall>ev. print_error st ev = None) \<longrightarrow>
      add_utoipa_to_file rust_file st =
        Inr ((None, False),
             st\<lparr>console := console st @ [Error_processing rust_file (PyException msg)]\<rparr>) \<and>
      process_files shown (rust_file # rest) st =
        process_files shown rest
          (st\<lparr>console := console st @
                 [Processing (shown rust_file), Error_processing rust_file (PyException msg),
                  Failed_to_process (name_of rust_file)],
              total_files := total_files st + 1\<rparr>))"
proof (intro conjI impI)
  show "(\<exists>err. add_utoipa_to_file rust_file st = Inl err) \<longleftrightarrow>
      (\<exists>msg. files st rust_file = Inl (PyBaseException msg)) \<or>
      (\<exists>msg err. files st rust_file = Inl (PyException msg) \<and>
         print_error st (Error_processing rust_file (PyException msg)) = Some err)"
    by (rule add_utoipa_to_file_raises)
next
  assume a: "files st rust_file = Inl (PyException msg) \<and> name_of rust_file \<noteq> ''mod.rs'' \<and>
    (\<forall>ev. print_error st ev = None)"
  then show "add_utoipa_to_file rust_file st =
        Inr ((None, False),
             st\<lparr>console := console st @ [Error_processing rust_file (PyException msg)]\<rparr>)"
    by (simp add: add_utoipa_to_file_def print_def)
  from a have "process_file shown rust_file st =
          Inr (st\<lparr>console := console st @
                    [Processing (shown rust_file), Error_processing rust_file (PyException msg),
                     Failed_to_process (name_of rust_file)],
                 total_files := total_files st + 1\<rparr>)"
    by (simp add: process_file_def add_utoipa_to_file_def print_def)
  then show "process_files shown (rust_file # rest) st =
        process_files shown rest
          (st\<lparr>console := console st @
                 [Processing (shown rust_file), Error_processing rust_file (PyException msg),
                  Failed_to_process (name_of rust_file)],
              total_files := total_files st + 1\<rparr>)"
    by simp
qed

theorem read_failure_continues_witness:
  "\<exists>st'. process_files name_of [''t/a.rs'', ''t/b.rs'']
            \<lparr>files = (\<lambda>p. if p = ''t/a.rs'' then Inl (PyException ''denied'')
                            else Inr ''pub struct S;''),
             write_error = (\<lambda>p. None), print_error = (\<lambda>ev. None),
             console = [], files_modified = 0, total_files = 0\<rparr>
          = Inr st' \<and>
        console st' =
          [Processing ''a.rs'', Error_processing ''t/a.rs'' (PyException ''denied''),
           Failed_to_process ''a.rs'', Processing ''b.rs'', No_changes ''b.rs''] \<and>
        total_files st' = 2 \<and> files_modified st' = 0"
proof -
  let ?st = "\<lparr>files = (\<lambda>p. if p = ''t/a.rs'' then Inl (PyException ''denied'')
                            else Inr ''pub struct S;''),
             write_error = (\<lambda>p. None), print_error = (\<lambda>ev. None),
             console = [], files_modified = 0, total_files = 0\<rparr>"
  have h: "files ?st ''t/a.rs'' = Inl (PyException ''denied'') \<and>
      name_of ''t/a.rs'' \<noteq> ''mod.rs'' \<and> (\<forall>ev. print_error ?st ev = None)"
    by (simp add: name_of_def)
  have c: "add_utoipa_to_content ''pub struct S;'' = (''pub struct S;'', False)"
    by (rule unchanged_without_derive) code_simp
  have na: "name_of ''t/a.rs'' = ''a.rs''" and nb: "name_of ''t/b.rs'' = ''b.rs''"
    by (simp_all add: name_of_def)
  from read_failure_continues [of "''t/a.rs''" ?st "''denied''" name_of "[''t/b.rs'']"] h
  have "process_files name_of [''t/a.rs'', ''t/b.rs''] ?st =
        process_files name_of [''t/b.rs'']
          (?st\<lparr>console := console ?st @
                 [Processing (name_of ''t/a.rs''), Error_processing ''t/a.rs'' (PyException ''denied''),
                  Failed_to_process (name_of ''t/a.rs'')],
              total_files := total_files ?st + 1\<rparr>)"
    by blast
  then show ?thesis
    by (simp add: na nb process_file_def add_utoipa_to_file_def print_def c)
qed

text \<open>
  The operation can let an exception through. When \<^verbatim>\<open>read_text\<close> raises
  \<^verbatim>\<open>KeyboardInterrupt\<close>, which is not an \<^verbatim>\<open>Exception\<close>, the handler does not take it;
  when it raises an \<^verbatim>\<open>OSError\<close> and the \<^verbatim>\<open>print\<close> of the handler raises, that second
  exception leaves the handler. In both cases the loop stops at the file: the files
  after it are not processed.
\<close>

theorem read_failure_continues_counterexample:
  "add_utoipa_to_file ''t/a.rs''
     \<lparr>files = (\<lambda>p. Inl (PyBaseException ''KeyboardInterrupt'')),
      write_error = (\<lambda>p. None), print_error = (\<lambda>ev. None),
      console = [], files_modified = 0, total_files = 0\<rparr>
     = Inl (PyBaseException ''KeyboardInterrupt'') \<and>
   add_utoipa_to_file ''t/a.rs''
     \<lparr>files = (\<lambda>p. Inl (PyException ''denied'')),
      write_error = (\<lambda>p. None),
      print_error = (\<lambda>ev. case ev of Error_processing p e \<Rightarrow> Some (PyException ''closed'')
                                  | _ \<Rightarrow> None),
      console = [], files_modified = 0, total_files = 0\<rparr>
     = Inl (PyException ''closed'') \<and>
   process_files name_of [''t/a.rs'', ''t/b.rs'']
     \<lparr>files = (\<lambda>p. if p = ''t/a.rs'' then Inl (PyBaseException ''KeyboardInterrupt'')
                     else Inr ''pub struct S;''),
      write_error = (\<lambda>p. None), print_error = (\<lambda>ev. None),
      console = [], files_modified = 0, total_files = 0\<rparr>
     = Inl (PyBaseException ''KeyboardInterrupt'')"
  by (simp add: add_utoipa_to_file_def print_def process_file_def name_of_def)

section \<open>The example of the specification\<close>

text \<open>
  C8. Applied to the text \<^verbatim>\<open>#[derive(Debug, Clone)]\<close>, newline,
  \<^verbatim>\<open>pub struct Foo { bar: String }\<close>, the transformation returns the same text with the
  line \<^verbatim>\<open>#[derive(utoipa::ToSchema)]\<close> inserted between the two lines, and the changed
  flag is true.
\<close>

theorem example_scenario:
  "add_utoipa_to_content ''#[derive(Debug, Clone)]\<newline>pub struct Foo { bar: String }'' =
     (''#[derive(Debug, Clone)]\<newline>#[derive(utoipa::ToSchema)]\<newline>pub struct Foo { bar: String }'',
      True)"
proof -
  let ?m = "\<lparr>group1 = [], group2 = ''#[derive(Debug, Clone)]\<newline>'', group3 = [],
             group4 = [], group5 = ''pub struct Foo'', group6 = ''Foo'',
             after_end = '' { bar: String }''\<rparr>"
  have pm: "pattern_match ''#[derive(Debug, Clone)]\<newline>pub struct Foo { bar: String }'' = Some ?m"
    by code_simp
  have tl: "sub_segments '' { bar: String }'' = map Plain '' { bar: String }''"
    by (rule sub_segments_no_hash) simp
  have segs: "sub_segments ''#[derive(Debug, Clone)]\<newline>pub struct Foo { bar: String }'' =
          Cand ?m # map Plain '' { bar: String }''"
    using sub_segments_Some [OF pm] tl by simp
  have repl: "add_separate_derive ?m =
     ''#[derive(Debug, Clone)]\<newline>#[derive(utoipa::ToSchema)]\<newline>pub struct Foo''"
    by code_simp
  show ?thesis
    unfolding add_utoipa_to_content_def re_sub_def segs Let_def
    by (simp add: repl)
qed

end
